theory Spec2Isabelle
  imports Main "HOL-Library.Monad_Syntax"
begin

section \<open>Route-contexted state: the data model\<close>

text \<open>
  The reducer helper \<open>createRouteContextedState\<close> works on plain JavaScript objects.
  An object is modelled by the finite map of its own properties; a property that holds
  the JavaScript value \<open>undefined\<close> is different from a property that is absent (a spread
  copies the former and skips the latter), so \<open>undefined\<close> is a value of its own.
  The objects are plain ones, so a read \<open>o[name]\<close> that finds no own property falls
  back on \<open>Object.prototype\<close>. The code reads the cache at a namespace id, which is any
  string, and that read is modelled with the fallback (\<open>lookup_entry\<close> below). The
  property names of the state are those the client declares and are taken not to be
  names of \<open>Object.prototype\<close> members.
\<close>

datatype 'v js = Undefined | Val 'v

type_synonym 'v obj = "string \<rightharpoonup> 'v js"

type_synonym 'v cache = "string \<rightharpoonup> 'v obj"

text \<open>
  \<open>FullState = NonRoutefulState & RoutefulState & PrivateState<RoutefulState>\<close>: all
  top-level properties other than \<open>privateNamespacedState\<close> live in \<open>props\<close>; the
  optional property \<open>privateNamespacedState\<close> is the dictionary from namespace id to
  a snapshot of the routeful properties. The name \<open>privateNamespacedState\<close> is taken
  not to be a routeful property name.
\<close>

record 'v FullState =
  props :: "'v obj"
  privateNamespacedState :: "'v cache option"

text \<open>Reading a property, \<open>o[key]\<close>: an absent property reads as \<open>undefined\<close>.\<close>

definition get_prop :: "'v obj \<Rightarrow> string \<Rightarrow> 'v js" where
  "get_prop ob key = (case ob key of None \<Rightarrow> Undefined | Some v \<Rightarrow> v)"

text \<open>
  An object given by a literal is the list of its properties in order;
  \<open>Object.keys\<close> lists the names.
\<close>

type_synonym 'v literal = "(string \<times> 'v js) list"

definition object_keys :: "'v literal \<Rightarrow> string list" where
  "object_keys lit = map fst lit"

definition obj_of :: "'v literal \<Rightarrow> 'v obj" where
  "obj_of lit = map_of lit"

text \<open>
  Truthiness of a value of type \<open>string | null\<close>, as tested by \<open>if (beforeNamespaceId)\<close>:
  \<open>null\<close> and the empty string are falsy.
\<close>

fun truthy_id :: "string option \<Rightarrow> bool" where
  "truthy_id None = False"
| "truthy_id (Some s) = (s \<noteq> [])"

section \<open>createRouteContextedState\<close>

text \<open>
  \<open>const initialState = {...routefulInitialState, ...nonRoutefulInitialState,
  privateNamespacedState: {}}\<close>
\<close>

definition initialState :: "'v literal \<Rightarrow> 'v literal \<Rightarrow> 'v FullState" where
  "initialState routefulInitialState nonRoutefulInitialState =
     \<lparr>props = obj_of routefulInitialState ++ obj_of nonRoutefulInitialState,
      privateNamespacedState = Some Map.empty\<rparr>"

text \<open>
  The loop \<open>for (const key of keys) routefulStateToCache[key] = state[key]\<close>, started
  on the empty object.
\<close>

definition routefulStateToCache :: "string list \<Rightarrow> 'v FullState \<Rightarrow> 'v obj" where
  "routefulStateToCache keys state =
     fold (\<lambda>key acc. acc(key \<mapsto> get_prop (props state) key)) keys Map.empty"

text \<open>\<open>{...state.privateNamespacedState}\<close>: spreading \<open>undefined\<close> gives the empty object.\<close>

definition cache_of :: "'v FullState \<Rightarrow> 'v cache" where
  "cache_of state = (case privateNamespacedState state of None \<Rightarrow> Map.empty | Some c \<Rightarrow> c)"

text \<open>
  The members that every plain object inherits from \<open>Object.prototype\<close>: functions,
  and under \<open>__proto__\<close> the prototype itself. Each of them is truthy and has no own
  enumerable property, so spreading it copies nothing.
\<close>

definition object_prototype_members :: "string list" where
  "object_prototype_members =
     [''constructor'', ''hasOwnProperty'', ''isPrototypeOf'', ''propertyIsEnumerable'',
      ''toLocaleString'', ''toString'', ''valueOf'', ''__proto__'',
      ''__defineGetter__'', ''__defineSetter__'', ''__lookupGetter__'', ''__lookupSetter__'']"

text \<open>
  What \<open>state.privateNamespacedState?.[afterNamespaceId]\<close> yields: \<open>undefined\<close> when the
  state has no cache; the entry when the cache has one of its own (an object, hence
  truthy); otherwise the inherited member when the id names one, and \<open>undefined\<close> when
  it does not.
\<close>

datatype 'v entry = Found "'v obj" | Builtin | Missing

definition lookup_entry :: "'v FullState \<Rightarrow> string \<Rightarrow> 'v entry" where
  "lookup_entry state nsId =
     (case privateNamespacedState state of
        None \<Rightarrow> Missing
      | Some c \<Rightarrow>
          (case c nsId of
             Some cached \<Rightarrow> Found cached
           | None \<Rightarrow> if nsId \<in> set object_prototype_members then Builtin else Missing))"

text \<open>
  \<open>updateRoutefulState(state, beforeNamespaceId, afterNamespaceId)\<close>. The first
  branch is taken when the value looked up is truthy: a cached snapshot is swapped in,
  and an inherited member is spread to no effect.
\<close>

definition updateRoutefulState ::
  "'v literal \<Rightarrow> 'v FullState \<Rightarrow> string option \<Rightarrow> string \<Rightarrow> 'v FullState" where
  "updateRoutefulState routefulInitialState state beforeNamespaceId afterNamespaceId =
     (let keys = object_keys routefulInitialState;
          nextContextedStateCache =
            (case beforeNamespaceId of
               None \<Rightarrow> cache_of state
             | Some b \<Rightarrow>
                 if truthy_id (Some b)
                 then (cache_of state)(b \<mapsto> routefulStateToCache keys state)
                 else cache_of state);
          nextRoutefulState =
            (case lookup_entry state afterNamespaceId of
               Found cached \<Rightarrow> cached
             | Builtin \<Rightarrow> Map.empty
             | Missing \<Rightarrow>
                 if truthy_id beforeNamespaceId then obj_of routefulInitialState
                 else Map.empty)
      in state\<lparr>props := props state ++ nextRoutefulState,
               privateNamespacedState := Some nextContextedStateCache\<rparr>)"

text \<open>
  The types of \<open>./types\<close> that the reducer reads: a \<open>Route\<close> has a kind and parameters
  (and the path and query parameters used by the location adapter); the \<open>navigated\<close>
  action carries the routes and namespace ids before and after the navigation.
\<close>

record ('k, 'p) Route =
  routeKind :: 'k
  params :: 'p
  pathname :: string
  queryParams :: "(string \<times> string) list"

record ('k, 'p) navigated =
  before :: "('k, 'p) Route option"
  after :: "('k, 'p) Route"
  beforeNamespaceId :: "string option"
  afterNamespaceId :: string

text \<open>
  The reducer registered for \<open>navigated\<close>. \<open>getRouteId\<close> comes from
  \<open>./internal_utils\<close> and is a parameter; \<open>onRouteIdChanged\<close> is the optional callback
  of the client.
\<close>

definition reducers ::
  "'v literal \<Rightarrow> ('k \<Rightarrow> 'p \<Rightarrow> string) \<Rightarrow>
   ('v FullState \<Rightarrow> ('k, 'p) Route \<Rightarrow> 'v FullState) option \<Rightarrow>
   'v FullState \<Rightarrow> ('k, 'p) navigated \<Rightarrow> 'v FullState" where
  "reducers routefulInitialState getRouteId onRouteIdChanged state action =
     (let nextFullState =
            (if beforeNamespaceId action \<noteq> Some (afterNamespaceId action)
             then updateRoutefulState routefulInitialState state
                    (beforeNamespaceId action) (afterNamespaceId action)
             else state);
          afterRouteId = Some (getRouteId (routeKind (after action)) (params (after action)));
          beforeRouteId =
            (case before action of
               Some b \<Rightarrow> Some (getRouteId (routeKind b) (params b))
             | None \<Rightarrow> None)
      in case onRouteIdChanged of
           Some callback \<Rightarrow>
             if beforeRouteId \<noteq> afterRouteId then callback nextFullState (after action)
             else nextFullState
         | None \<Rightarrow> nextFullState)"

section \<open>The location adapter\<close>

text \<open>
  \<open>Navigation\<close> (from \<open>./types\<close>) has a path and no \<open>queryParams\<close>; a \<open>Route\<close> has both.
  The argument of \<open>getFullPathFromRouteOrNav\<close> is one or the other.
\<close>

record Navigation =
  nav_pathname :: string
  replaceState :: "bool option"
  resetNamespacedState :: "bool option"

datatype ('k, 'p) RouteOrNav = IsRoute "('k, 'p) Route" | IsNavigation Navigation

text \<open>
  \<open>isNavigation\<close>: the object has its own \<open>pathname\<close> and no own \<open>queryParams\<close>.
\<close>

fun isNavigation :: "('k, 'p) RouteOrNav \<Rightarrow> bool" where
  "isNavigation (IsNavigation n) = True"
| "isNavigation (IsRoute r) = False"

fun routeLike_pathname :: "('k, 'p) RouteOrNav \<Rightarrow> string" where
  "routeLike_pathname (IsNavigation n) = nav_pathname n"
| "routeLike_pathname (IsRoute r) = pathname r"

text \<open>
  \<open>routeLike.queryParams\<close>, read only when \<open>isNavigation\<close> is false, that is, on a
  \<open>Route\<close>.
\<close>

fun routeLike_queryParams :: "('k, 'p) RouteOrNav \<Rightarrow> (string \<times> string) list" where
  "routeLike_queryParams (IsRoute r) = queryParams r"
| "routeLike_queryParams (IsNavigation n) = []"

text \<open>
  What the adapter reads from the browser: \<open>window.location.href\<close> and
  \<open>window.location.hash\<close>, the path of \<open>new URL(relativePath, base)\<close> (the
  constructor throws a \<open>TypeError\<close> on an invalid URL: \<open>None\<close>), and the
  percent-encoding that \<open>URLSearchParams\<close> applies to a key or a value.
\<close>

record window =
  location_href :: string
  location_hash :: string
  url_pathname :: "string \<Rightarrow> string \<Rightarrow> string option"
  form_encode :: "string \<Rightarrow> string"

datatype error = TypeError

definition getHash :: "window \<Rightarrow> string" where
  "getHash w = location_hash w"

definition getResolvedPath :: "window \<Rightarrow> string \<Rightarrow> error + string" where
  "getResolvedPath w relativePath =
     (case url_pathname w relativePath (location_href w) of
        None \<Rightarrow> Inl TypeError
      | Some p \<Rightarrow> Inr p)"

fun join_amp :: "string list \<Rightarrow> string" where
  "join_amp [] = []"
| "join_amp [x] = x"
| "join_amp (x # y # ys) = x @ ''&'' @ join_amp (y # ys)"

text \<open>
  Modelled from the spec: \<open>createURLSearchParamsFromSerializableQueryParams\<close> of
  \<open>./internal_utils\<close> is not among the sources, and \<open>toString\<close> of the resulting
  \<open>URLSearchParams\<close> is the browser's. The spec gives the result as \<open>k=v&...\<close>: the
  parameters in order, each as key, \<open>=\<close>, value, joined by \<open>&\<close>.
\<close>

definition searchParamsToString :: "window \<Rightarrow> (string \<times> string) list \<Rightarrow> string" where
  "searchParamsToString w qs =
     join_amp (map (\<lambda>(k, v). form_encode w k @ ''='' @ form_encode w v) qs)"

text \<open>
  \<open>getFullPathFromRouteOrNav(routeLike, shouldPreserveHash?)\<close>; an omitted flag is
  \<open>None\<close>.
\<close>

definition getFullPathFromRouteOrNav ::
  "window \<Rightarrow> ('k, 'p) RouteOrNav \<Rightarrow> bool option \<Rightarrow> error + string" where
  "getFullPathFromRouteOrNav w routeLike shouldPreserveHash =
     (case getResolvedPath w (routeLike_pathname routeLike) of
        Inl e \<Rightarrow> Inl e
      | Inr path \<Rightarrow>
          (let search =
                 (if \<not> isNavigation routeLike \<and> length (routeLike_queryParams routeLike) \<noteq> 0
                  then ''?'' @ searchParamsToString w (routeLike_queryParams routeLike)
                  else []);
               hash = (if shouldPreserveHash = Some True then getHash w else [])
           in Inr (path @ search @ hash)))"

section \<open>Runs of the store\<close>


text \<open>The live routeful properties of a state, as an object over the routeful keys.\<close>

definition routeful_of :: "'v literal \<Rightarrow> 'v FullState \<Rightarrow> 'v obj" where
  "routeful_of routefulInitialState state =
     routefulStateToCache (object_keys routefulInitialState) state"

text \<open>Every snapshot in the cache has exactly the routeful keys.\<close>

definition snapshots_ok :: "'v literal \<Rightarrow> 'v FullState \<Rightarrow> bool" where
  "snapshots_ok routefulInitialState state =
     (\<forall>id snap. cache_of state id = Some snap \<longrightarrow>
        dom snap = set (object_keys routefulInitialState))"

text \<open>
  What the spec asks of the mechanism, written as a second, abstract account to compare
  the code with: every namespace id has routeful values of its own (\<open>views\<close>). The
  values of the namespace the application is in follow the updates of the client; those
  of every other namespace stay as they are; a namespace entered for the first time
  starts from the routeful initial state, or, on the very first navigation, from the
  values bootstrapped so far. \<open>spec_tracks admissible\<close> runs the reducer next to this
  account, over navigations that chain (each one leaves the namespace the one before
  entered, the first has \<open>beforeNamespaceId = null\<close>) and enter admissible namespace ids
  only. The work of an \<open>onRouteIdChanged\<close> callback counts as an update of the client.
\<close>

inductive spec_tracks ::
  "(string \<Rightarrow> bool) \<Rightarrow> 'v literal \<Rightarrow> 'v literal \<Rightarrow> ('k \<Rightarrow> 'p \<Rightarrow> string) \<Rightarrow>
   string option \<Rightarrow> 'v cache \<Rightarrow> 'v FullState \<Rightarrow> bool"
  for admissible routefulInitialState nonRoutefulInitialState getRouteId where
  spec_initial:
    "spec_tracks admissible routefulInitialState nonRoutefulInitialState getRouteId
       None Map.empty (initialState routefulInitialState nonRoutefulInitialState)"
| spec_client:
    "spec_tracks admissible routefulInitialState nonRoutefulInitialState getRouteId
       current views state \<Longrightarrow>
     spec_tracks admissible routefulInitialState nonRoutefulInitialState getRouteId
       current
       (case current of
          None \<Rightarrow> views
        | Some c \<Rightarrow> views(c \<mapsto> routeful_of routefulInitialState (state\<lparr>props := p\<rparr>)))
       (state\<lparr>props := p\<rparr>)"
| spec_navigated:
    "spec_tracks admissible routefulInitialState nonRoutefulInitialState getRouteId
       current views state \<Longrightarrow>
     beforeNamespaceId action = current \<Longrightarrow>
     admissible (afterNamespaceId action) \<Longrightarrow>
     spec_tracks admissible routefulInitialState nonRoutefulInitialState getRouteId
       (Some (afterNamespaceId action))
       (case views (afterNamespaceId action) of
          Some v \<Rightarrow> views
        | None \<Rightarrow>
            views(afterNamespaceId action \<mapsto>
              (if current = None then routeful_of routefulInitialState state
               else obj_of routefulInitialState)))
       (reducers routefulInitialState getRouteId None state action)"

section \<open>updateRoutefulState on a heap of objects\<close>

text \<open>
  Whether the function changes the objects it is given cannot be read off a function on
  values, so here it is once more with the objects in a store. A value is \<open>undefined\<close>, a
  primitive, the address of an object, or a built-in object of the runtime (a member of
  \<open>Object.prototype\<close>, which is truthy and has no own enumerable property); the heap is
  the list of the objects allocated so far, an address being an index into it (\<open>null\<close>
  behaves like \<open>undefined\<close> in every operation used here and has no constructor of its
  own). \<open>None\<close> as a result stands for a thrown \<open>TypeError\<close> (or for a read at an address
  that holds no object, which a JavaScript heap does not have).
\<close>

datatype 'v hval = HUndefined | HPrim 'v | HRef nat | HBuiltin

type_synonym 'v hobj = "string \<rightharpoonup> 'v hval"

type_synonym 'v heap = "'v hobj list"

text \<open>A new object gets the next free address.\<close>

definition alloc :: "'v hobj \<Rightarrow> 'v heap \<Rightarrow> nat \<times> 'v heap" where
  "alloc ob h = (length h, h @ [ob])"

definition deref :: "'v heap \<Rightarrow> nat \<Rightarrow> 'v hobj option" where
  "deref h a = (if a < length h then Some (h ! a) else None)"

definition hprop :: "'v hobj \<Rightarrow> string \<Rightarrow> 'v hval" where
  "hprop ob key = (case ob key of None \<Rightarrow> HUndefined | Some v \<Rightarrow> v)"

text \<open>The assignment \<open>o[key] = v\<close>.\<close>

definition assign :: "nat \<Rightarrow> string \<Rightarrow> 'v hval \<Rightarrow> 'v heap \<Rightarrow> 'v heap option" where
  "assign a key v h = (if a < length h then Some (h[a := (h ! a)(key \<mapsto> v)]) else None)"

text \<open>
  Truthiness of a value: an object is truthy, \<open>undefined\<close> is not, and for a primitive
  the parameter \<open>tp\<close> says.
\<close>

fun truthy_val :: "('v \<Rightarrow> bool) \<Rightarrow> 'v hval \<Rightarrow> bool" where
  "truthy_val tp HUndefined = False"
| "truthy_val tp (HPrim x) = tp x"
| "truthy_val tp (HRef a) = True"
| "truthy_val tp HBuiltin = True"

text \<open>
  The own properties that a spread \<open>{...v}\<close> copies: those of the object, none for
  \<open>undefined\<close>, a primitive or a built-in object.
\<close>

fun spread :: "'v heap \<Rightarrow> 'v hval \<Rightarrow> 'v hobj option" where
  "spread h (HRef a) = deref h a"
| "spread h HUndefined = Some Map.empty"
| "spread h (HPrim x) = Some Map.empty"
| "spread h HBuiltin = Some Map.empty"

text \<open>
  Reading \<open>o[key]\<close> on a plain object at a key that is any string: the own property if
  there is one, else the member inherited from \<open>Object.prototype\<close> if the key names one,
  else \<open>undefined\<close>.
\<close>

definition lookup_member :: "'v hobj \<Rightarrow> string \<Rightarrow> 'v hval" where
  "lookup_member ob key =
     (case ob key of
        Some v \<Rightarrow> v
      | None \<Rightarrow> if key \<in> set object_prototype_members then HBuiltin else HUndefined)"

text \<open>
  The member access \<open>v[key]\<close>, which throws on \<open>undefined\<close>, and the optional one
  \<open>v?.[key]\<close>, which does not. Where the cache object belongs, a primitive or a
  built-in object is ill typed; a read on it is taken to give \<open>undefined\<close>.
\<close>

fun member :: "'v heap \<Rightarrow> 'v hval \<Rightarrow> string \<Rightarrow> 'v hval option" where
  "member h (HRef a) key = map_option (\<lambda>ob. lookup_member ob key) (deref h a)"
| "member h HUndefined key = None"
| "member h (HPrim x) key = Some HUndefined"
| "member h HBuiltin key = Some HUndefined"

fun member_optional :: "'v heap \<Rightarrow> 'v hval \<Rightarrow> string \<Rightarrow> 'v hval option" where
  "member_optional h HUndefined key = Some HUndefined"
| "member_optional h v key = member h v key"

text \<open>
  The loop \<open>for (const key of keys) routefulStateToCache[key] = state[key]\<close>, with
  \<open>src\<close> the address of \<open>state\<close> and \<open>dst\<close> that of \<open>routefulStateToCache\<close>.
\<close>

fun copy_keys :: "nat \<Rightarrow> nat \<Rightarrow> string list \<Rightarrow> 'v heap \<Rightarrow> 'v heap option" where
  "copy_keys src dst [] h = Some h"
| "copy_keys src dst (key # keys) h =
     do {
       st \<leftarrow> deref h src;
       h' \<leftarrow> assign dst key (hprop st key) h;
       copy_keys src dst keys h'
     }"

text \<open>
  \<open>updateRoutefulState\<close>, statement by statement. \<open>keys\<close> and the address of
  \<open>routefulInitialState\<close> are those captured by the closure; \<open>state\<close> is the address of
  the state object.
\<close>

definition updateRoutefulState_heap ::
  "('v \<Rightarrow> bool) \<Rightarrow> string list \<Rightarrow> nat \<Rightarrow> nat \<Rightarrow> string option \<Rightarrow> string \<Rightarrow>
   'v heap \<Rightarrow> (nat \<times> 'v heap) option" where
  "updateRoutefulState_heap tp keys routefulInitialState state beforeId afterId h =
     do {
       st \<leftarrow> deref h state;
       cache_props \<leftarrow> spread h (hprop st ''privateNamespacedState'');
       (nextContextedStateCache, h) \<leftarrow> Some (alloc cache_props h);
       (nextContextedStateCache, h) \<leftarrow>
         (case beforeId of
            None \<Rightarrow> Some (nextContextedStateCache, h)
          | Some b \<Rightarrow>
              if truthy_id (Some b) then
                do {
                  (routefulStateToCache, h) \<leftarrow> Some (alloc Map.empty h);
                  h \<leftarrow> copy_keys state routefulStateToCache keys h;
                  cache_props \<leftarrow> spread h (HRef nextContextedStateCache);
                  Some (alloc (cache_props(b \<mapsto> HRef routefulStateToCache)) h)
                }
              else Some (nextContextedStateCache, h));
       (empty_object, h) \<leftarrow> Some (alloc Map.empty h);
       st \<leftarrow> deref h state;
       cached \<leftarrow> member_optional h (hprop st ''privateNamespacedState'') afterId;
       nextRoutefulState \<leftarrow>
         (if truthy_val tp cached
          then member h (hprop st ''privateNamespacedState'') afterId
          else if truthy_id beforeId then Some (HRef routefulInitialState)
          else Some (HRef empty_object));
       state_props \<leftarrow> spread h (HRef state);
       routeful_props \<leftarrow> spread h nextRoutefulState;
       Some (alloc ((state_props ++ routeful_props)
                      (''privateNamespacedState'' \<mapsto> HRef nextContextedStateCache)) h)
     }"

text \<open>A heap holds no address without an object.\<close>

definition heap_closed :: "'v heap \<Rightarrow> bool" where
  "heap_closed h = (\<forall>a < length h. \<forall>key r. (h ! a) key = Some (HRef r) \<longrightarrow> r < length h)"

text \<open>
  What the function reads from the heap: the properties of the cache object of the state
  (none when the state has no cache), the value cached for the next namespace id, the
  properties spread as \<open>nextRoutefulState\<close>, and the snapshot of the routeful keys.
\<close>

definition old_cache_props :: "'v heap \<Rightarrow> nat \<Rightarrow> 'v hobj" where
  "old_cache_props h state =
     (case hprop (h ! state) ''privateNamespacedState'' of
        HRef c \<Rightarrow> h ! c
      | _ \<Rightarrow> Map.empty)"

definition cached_value :: "'v heap \<Rightarrow> nat \<Rightarrow> string \<Rightarrow> 'v hval" where
  "cached_value h state afterId =
     (case hprop (h ! state) ''privateNamespacedState'' of
        HRef c \<Rightarrow> lookup_member (h ! c) afterId
      | _ \<Rightarrow> HUndefined)"

definition next_routeful_props ::
  "('v \<Rightarrow> bool) \<Rightarrow> nat \<Rightarrow> 'v heap \<Rightarrow> nat \<Rightarrow> string option \<Rightarrow> string \<Rightarrow> 'v hobj" where
  "next_routeful_props tp routefulInitialState h state beforeId afterId =
     (if truthy_val tp (cached_value h state afterId)
      then (case cached_value h state afterId of HRef r \<Rightarrow> h ! r | _ \<Rightarrow> Map.empty)
      else if truthy_id beforeId then h ! routefulInitialState
      else Map.empty)"

definition snapshot_props :: "string list \<Rightarrow> 'v hobj \<Rightarrow> 'v hobj" where
  "snapshot_props keys st = (\<lambda>k. if k \<in> set keys then Some (hprop st k) else None)"

text \<open>
  From the heap back to values: the state object at an address as a \<open>FullState\<close>, an
  address being a value like any other. The state is well typed for the call when
  \<open>privateNamespacedState\<close> is not a routeful key, \<open>keys\<close> are the keys of the routeful
  initial state, and the cache holds nothing but a snapshot object for the next id (an
  entry that holds \<open>undefined\<close> counts as absent, which it is for the code unless the id
  names an inherited member).
\<close>

fun abs_val :: "'v hval \<Rightarrow> 'v hval js" where
  "abs_val HUndefined = Undefined"
| "abs_val (HPrim x) = Val (HPrim x)"
| "abs_val (HRef a) = Val (HRef a)"
| "abs_val HBuiltin = Val HBuiltin"

definition abs_obj :: "'v hobj \<Rightarrow> 'v hval obj" where
  "abs_obj ob =
     (\<lambda>k. if k = ''privateNamespacedState'' then None else map_option abs_val (ob k))"

definition abs_cache :: "'v heap \<Rightarrow> 'v hobj \<Rightarrow> 'v hval cache" where
  "abs_cache h cache_props =
     (\<lambda>id. case cache_props id of
             Some (HRef r) \<Rightarrow> Some (abs_obj (h ! r))
           | _ \<Rightarrow> None)"

definition abs_state :: "'v heap \<Rightarrow> nat \<Rightarrow> 'v hval FullState" where
  "abs_state h a =
     \<lparr>props = abs_obj (h ! a),
      privateNamespacedState =
        (case hprop (h ! a) ''privateNamespacedState'' of
           HRef c \<Rightarrow> Some (abs_cache h (h ! c))
         | _ \<Rightarrow> None)\<rparr>"

definition abs_literal :: "string list \<Rightarrow> 'v hobj \<Rightarrow> 'v hval literal" where
  "abs_literal keys ob = map (\<lambda>k. (k, abs_val (hprop ob k))) keys"

definition well_typed :: "string list \<Rightarrow> nat \<Rightarrow> nat \<Rightarrow> string \<Rightarrow> 'v heap \<Rightarrow> bool" where
  "well_typed keys routefulInitialState state afterId h =
     (''privateNamespacedState'' \<notin> set keys
      \<and> dom (h ! routefulInitialState) = set keys
      \<and> (\<forall>v. old_cache_props h state afterId = Some v \<longrightarrow>
             (\<exists>r. v = HRef r) \<or>
             (v = HUndefined \<and> afterId \<notin> set object_prototype_members)))"

section \<open>Example data\<close>

definition ex_routeful :: "nat literal" where
  "ex_routeful = [(''count'', Val 0)]"

definition ex_nonrouteful :: "nat literal" where
  "ex_nonrouteful = [(''title'', Val 7)]"

definition ex_state :: "nat FullState" where
  "ex_state = \<lparr>props = [''count'' \<mapsto> Val 5, ''title'' \<mapsto> Val 7],
               privateNamespacedState = Some Map.empty\<rparr>"

definition ex_state_foreign :: "nat FullState" where
  "ex_state_foreign =
     \<lparr>props = [''count'' \<mapsto> Val 5, ''title'' \<mapsto> Val 7],
      privateNamespacedState = Some [''B'' \<mapsto> [''count'' \<mapsto> Val 1, ''title'' \<mapsto> Val 9]]\<rparr>"

definition ex_route :: "(string, string) Route" where
  "ex_route = \<lparr>routeKind = ''experiment'', params = ''1'',
               pathname = ''/experiment/1'', queryParams = []\<rparr>"

definition ex_route_query :: "(string, string) Route" where
  "ex_route_query = \<lparr>routeKind = ''experiment'', params = ''1'',
                     pathname = ''/experiment/1'',
                     queryParams = [(''a'', ''1''), (''b'', ''2'')]\<rparr>"

definition ex_window :: window where
  "ex_window = \<lparr>location_href = ''http://localhost/tb/'', location_hash = ''#scalars'',
                url_pathname = (\<lambda>rel base. Some rel), form_encode = (\<lambda>x. x)\<rparr>"

definition ex_enter :: "string option \<Rightarrow> string \<Rightarrow> (string, string) navigated" where
  "ex_enter b a = \<lparr>before = None, after = ex_route,
                   beforeNamespaceId = b, afterNamespaceId = a\<rparr>"

definition ex_action :: "(string, string) navigated" where
  "ex_action = \<lparr>before = Some ex_route, after = ex_route,
                beforeNamespaceId = Some ''ns'', afterNamespaceId = ''ns''\<rparr>"

definition ex_getRouteId :: "string \<Rightarrow> string \<Rightarrow> string" where
  "ex_getRouteId k p = k @ ''/'' @ p"

definition ex_run_state :: "string \<Rightarrow> string \<Rightarrow> nat FullState" where
  "ex_run_state n m =
     reducers ex_routeful ex_getRouteId None
       ((reducers ex_routeful ex_getRouteId None
           (initialState ex_routeful ex_nonrouteful) (ex_enter None n))
          \<lparr>props := [''count'' \<mapsto> Val 5, ''title'' \<mapsto> Val 7]\<rparr>)
       (ex_enter (Some n) m)"

definition ex_run_views :: "string \<Rightarrow> string \<Rightarrow> nat cache" where
  "ex_run_views n m = [n \<mapsto> [''count'' \<mapsto> Val 5], m \<mapsto> [''count'' \<mapsto> Val 0]]"

definition ex_heap :: "nat heap" where
  "ex_heap =
     [[''count'' \<mapsto> HPrim 0],
      [''count'' \<mapsto> HPrim 5, ''title'' \<mapsto> HPrim 7, ''privateNamespacedState'' \<mapsto> HRef 2],
      [''B'' \<mapsto> HRef 3],
      [''count'' \<mapsto> HPrim 1]]"

section \<open>Basic facts\<close>

lemma fold_upd_apply:
  "fold (\<lambda>key acc. acc(key \<mapsto> f key)) keys m k =
     (if k \<in> set keys then Some (f k) else m k)"
  by (induction keys arbitrary: m) auto

lemma routefulStateToCache_apply:
  "routefulStateToCache keys state k =
     (if k \<in> set keys then Some (get_prop (props state) k) else None)"
  by (simp add: routefulStateToCache_def fold_upd_apply)

lemma dom_routefulStateToCache: "dom (routefulStateToCache keys state) = set keys"
  by (auto simp: dom_def routefulStateToCache_apply)

lemma dom_obj_of: "dom (obj_of lit) = set (object_keys lit)"
  by (simp add: obj_of_def object_keys_def dom_map_of_conv_image_fst)

lemma routefulStateToCache_cong:
  "(\<And>k. k \<in> set keys \<Longrightarrow> get_prop (props s) k = get_prop (props t) k) \<Longrightarrow>
   routefulStateToCache keys s = routefulStateToCache keys t"
  by (rule ext) (simp add: routefulStateToCache_apply)

lemma get_prop_add:
  "get_prop (m ++ n) k = (if k \<in> dom n then get_prop n k else get_prop m k)"
  by (auto simp: get_prop_def map_add_def split: option.splits)

lemma routeful_restore:
  assumes "dom snap = set keys" and "props t = props s ++ snap"
  shows "routefulStateToCache keys t = snap"
proof (rule ext)
  fix k
  show "routefulStateToCache keys t k = snap k"
  proof (cases "k \<in> set keys")
    case True
    with assms(1) obtain v where "snap k = Some v" by auto
    with True assms(2) show ?thesis
      by (simp add: routefulStateToCache_apply get_prop_add get_prop_def domI)
  next
    case False
    with assms(1) have "snap k = None" by auto
    with False show ?thesis by (simp add: routefulStateToCache_apply)
  qed
qed

lemma cache_of_update:
  "cache_of (updateRoutefulState ri s b a) =
     (if truthy_id b then (cache_of s)(the b \<mapsto> routeful_of ri s) else cache_of s)"
  by (cases b) (simp_all add: updateRoutefulState_def Let_def cache_of_def routeful_of_def)

lemma lookup_entry_Some:
  "cache_of s a = Some cached \<Longrightarrow> lookup_entry s a = Found cached"
  by (auto simp: lookup_entry_def cache_of_def split: option.splits)

lemma lookup_entry_None:
  "cache_of s a = None \<Longrightarrow>
   lookup_entry s a =
     (if privateNamespacedState s \<noteq> None \<and> a \<in> set object_prototype_members
      then Builtin else Missing)"
  by (auto simp: lookup_entry_def cache_of_def split: option.splits)

lemma props_update:
  "props (updateRoutefulState ri s b a) =
     props s ++ (case lookup_entry s a of
                   Found cached \<Rightarrow> cached
                 | Builtin \<Rightarrow> Map.empty
                 | Missing \<Rightarrow> if truthy_id b then obj_of ri else Map.empty)"
  by (simp add: updateRoutefulState_def Let_def)

lemma props_update_Some:
  "cache_of s a = Some cached \<Longrightarrow>
   props (updateRoutefulState ri s b a) = props s ++ cached"
  by (simp add: props_update lookup_entry_Some)

lemma props_update_None:
  "cache_of s a = None \<Longrightarrow>
   props (updateRoutefulState ri s b a) =
     props s ++ (if privateNamespacedState s \<noteq> None \<and> a \<in> set object_prototype_members
                 then Map.empty
                 else if truthy_id b then obj_of ri else Map.empty)"
  by (simp add: props_update lookup_entry_None)

lemma snapshots_ok_update:
  assumes "snapshots_ok ri s"
  shows "snapshots_ok ri (updateRoutefulState ri s b a)"
  using assms
  by (auto simp: snapshots_ok_def cache_of_update routeful_of_def dom_routefulStateToCache
           split: if_splits)


lemma live_after_update:
  assumes "snapshots_ok ri s"
  shows "routeful_of ri (updateRoutefulState ri s b n) =
           (case cache_of s n of
              Some snap \<Rightarrow> snap
            | None \<Rightarrow>
                if truthy_id b \<and>
                   \<not> (privateNamespacedState s \<noteq> None \<and> n \<in> set object_prototype_members)
                then obj_of ri else routeful_of ri s)"
proof (cases "cache_of s n")
  case (Some snap)
  with assms have "dom snap = set (object_keys ri)"
    by (simp add: snapshots_ok_def)
  moreover have "props (updateRoutefulState ri s b n) = props s ++ snap"
    using Some by (rule props_update_Some)
  ultimately show ?thesis
    using Some by (simp add: routeful_of_def routeful_restore)
next
  case None
  let ?reset = "truthy_id b \<and>
     \<not> (privateNamespacedState s \<noteq> None \<and> n \<in> set object_prototype_members)"
  show ?thesis
  proof (cases ?reset)
    case True
    have "props (updateRoutefulState ri s b n) = props s ++ obj_of ri"
      using True by (auto simp: props_update_None [OF None])
    with dom_obj_of [of ri] have
      "routefulStateToCache (object_keys ri) (updateRoutefulState ri s b n) = obj_of ri"
      by (rule routeful_restore)
    with None True show ?thesis by (simp add: routeful_of_def)
  next
    case False
    have "props (updateRoutefulState ri s b n) = props s"
      using False by (auto simp: props_update_None [OF None])
    then have "routefulStateToCache (object_keys ri) (updateRoutefulState ri s b n) =
               routefulStateToCache (object_keys ri) s"
      by (intro routefulStateToCache_cong) simp
    with None False show ?thesis by (auto simp: routeful_of_def)
  qed
qed


lemma reducers_None:
  "reducers ri g None s action =
     (if beforeNamespaceId action \<noteq> Some (afterNamespaceId action)
      then updateRoutefulState ri s (beforeNamespaceId action) (afterNamespaceId action)
      else s)"
  by (simp add: reducers_def Let_def)

lemma spec_tracks_snapshots_ok:
  assumes "spec_tracks adm ri ni g current views state"
  shows "snapshots_ok ri state"
  using assms
proof (induction rule: spec_tracks.induct)
  case spec_initial
  show ?case by (simp add: snapshots_ok_def initialState_def cache_of_def)
next
  case (spec_client current views state p)
  then show ?case by (simp add: snapshots_ok_def cache_of_def)
next
  case (spec_navigated current views state action)
  then show ?case by (simp add: reducers_None snapshots_ok_update)
qed

lemma cache_of_props [simp]: "cache_of (s\<lparr>props := p\<rparr>) = cache_of s"
  by (simp add: cache_of_def)

lemma spec_tracks_invariant:
  assumes "spec_tracks (\<lambda>n. n \<noteq> [] \<and> n \<notin> set object_prototype_members)
             ri ni getRouteId current views state"
  shows "(case current of
            None \<Rightarrow> views = Map.empty
          | Some c \<Rightarrow> c \<noteq> [] \<and> views c = Some (routeful_of ri state))
       \<and> (\<forall>m. Some m \<noteq> current \<longrightarrow> cache_of state m = views m)"
  using assms
proof (induction rule: spec_tracks.induct)
  case spec_initial
  show ?case by (simp add: initialState_def cache_of_def)
next
  case (spec_client current views state p)
  then show ?case
    by (cases current) auto
next
  case (spec_navigated current views state action)
  define n where "n = afterNamespaceId action"
  have ok: "snapshots_ok ri state"
    using spec_navigated.hyps(1) by (rule spec_tracks_snapshots_ok)
  have n: "n \<noteq> []" "n \<notin> set object_prototype_members"
    using spec_navigated.hyps(3) by (simp_all add: n_def)
  have b: "beforeNamespaceId action = current" by fact
  have others: "\<forall>m. Some m \<noteq> current \<longrightarrow> cache_of state m = views m"
    using spec_navigated.IH by simp
  show ?case
  proof (cases "current = Some n")
    case True
    then have "reducers ri getRouteId None state action = state"
      using b by (simp add: reducers_None n_def)
    with True spec_navigated.IH show ?thesis
      by (auto simp: n_def [symmetric])
  next
    case False
    then have r: "reducers ri getRouteId None state action =
                  updateRoutefulState ri state current n"
      using b by (simp add: reducers_None n_def)
    have cn: "cache_of state n = views n"
      using others False by auto
    show ?thesis
    proof (cases current)
      case None
      with spec_navigated.IH have "views = Map.empty" by simp
      with None cn r n ok show ?thesis
        by (simp add: n_def [symmetric] live_after_update cache_of_update others)
    next
      case (Some c)
      with spec_navigated.IH have c: "c \<noteq> []" "views c = Some (routeful_of ri state)"
        by simp_all
      have live: "routeful_of ri (updateRoutefulState ri state current n) =
            (case views n of Some snap \<Rightarrow> snap | None \<Rightarrow> obj_of ri)"
        using ok Some c n by (simp add: live_after_update cn)
      have cache: "cache_of (updateRoutefulState ri state current n) =
                   (cache_of state)(c \<mapsto> routeful_of ri state)"
        using Some c by (simp add: cache_of_update)
      show ?thesis
        using Some c live cache others False n r
        by (auto simp: n_def [symmetric] split: option.splits)
    qed
  qed
qed

lemma ex_run_tracks:
  assumes "adm n" and "adm m" and "n \<noteq> m"
  shows "spec_tracks adm ex_routeful ex_nonrouteful ex_getRouteId
           (Some m) (ex_run_views n m) (ex_run_state n m)"
proof -
  let ?T = "spec_tracks adm ex_routeful ex_nonrouteful ex_getRouteId"
  let ?s0 = "initialState ex_routeful ex_nonrouteful"
  let ?s1 = "reducers ex_routeful ex_getRouteId None ?s0 (ex_enter None n)"
  let ?s2 = "?s1\<lparr>props := [''count'' \<mapsto> Val 5, ''title'' \<mapsto> Val 7]\<rparr>"
  have i: "?T None Map.empty ?s0" by (rule spec_initial)
  have "?T (Some n) [n \<mapsto> routeful_of ex_routeful ?s0] ?s1"
    using spec_navigated [OF i, of "ex_enter None n"] assms(1)
    by (simp add: ex_enter_def)
  from spec_client [OF this, of "[''count'' \<mapsto> Val 5, ''title'' \<mapsto> Val 7]"]
  have "?T (Some n) [n \<mapsto> routeful_of ex_routeful ?s2] ?s2"
    by simp
  moreover have "routeful_of ex_routeful ?s2 = [''count'' \<mapsto> Val 5]"
    by (simp add: routeful_of_def routefulStateToCache_def object_keys_def ex_routeful_def
          get_prop_def)
  ultimately have "?T (Some n) [n \<mapsto> [''count'' \<mapsto> Val 5]] ?s2"
    by simp
  from spec_navigated [OF this, of "ex_enter (Some n) m"] assms(2,3)
  show ?thesis
    by (simp add: ex_enter_def ex_run_views_def ex_run_state_def obj_of_def ex_routeful_def)
qed

lemma ex_run_live:
  assumes "n = [] \<or> m \<in> set object_prototype_members"
  shows "routeful_of ex_routeful (ex_run_state n m) ''count'' = Some (Val 5)"
proof -
  let ?s0 = "initialState ex_routeful ex_nonrouteful"
  let ?s1 = "updateRoutefulState ex_routeful ?s0 None n"
  let ?s2 = "?s1\<lparr>props := [''count'' \<mapsto> Val 5, ''title'' \<mapsto> Val 7]\<rparr>"
  have c: "cache_of ?s2 = Map.empty"
    by (simp add: cache_of_update) (simp add: cache_of_def initialState_def)
  have p: "privateNamespacedState ?s2 \<noteq> None"
    by (simp add: updateRoutefulState_def Let_def)
  have cm: "cache_of ?s2 m = None" unfolding c by simp
  have "props (updateRoutefulState ex_routeful ?s2 (Some n) m) =
        props ?s2 ++ (if privateNamespacedState ?s2 \<noteq> None \<and> m \<in> set object_prototype_members
                      then Map.empty
                      else if truthy_id (Some n) then obj_of ex_routeful else Map.empty)"
    by (rule props_update_None [OF cm])
  also have "\<dots> = props ?s2"
    using assms p by (cases "m \<in> set object_prototype_members") auto
  finally have "props (updateRoutefulState ex_routeful ?s2 (Some n) m) = props ?s2" .
  then have "routeful_of ex_routeful (updateRoutefulState ex_routeful ?s2 (Some n) m) ''count'' =
             Some (Val 5)"
    by (simp add: routeful_of_def routefulStateToCache_apply object_keys_def ex_routeful_def
          get_prop_def)
  moreover have "ex_run_state n m =
      (if Some n \<noteq> Some m then updateRoutefulState ex_routeful ?s2 (Some n) m else ?s2)"
    by (simp add: ex_run_state_def reducers_None ex_enter_def)
  ultimately show ?thesis
    by (simp add: routeful_of_def routefulStateToCache_apply object_keys_def ex_routeful_def
          get_prop_def)
qed

subsection \<open>Facts about the heap version\<close>

lemma copy_keys_Some:
  assumes "src < length h" and "dst < length h" and "src \<noteq> dst"
  shows "copy_keys src dst keys h =
           Some (h[dst := (\<lambda>k. if k \<in> set keys then Some (hprop (h ! src) k) else (h ! dst) k)])"
  using assms
proof (induction keys arbitrary: h)
  case Nil
  then show ?case by (simp add: list_update_same_conv)
next
  case (Cons key keys)
  let ?h1 = "h[dst := (h ! dst)(key \<mapsto> hprop (h ! src) key)]"
  have "copy_keys src dst (key # keys) h = copy_keys src dst keys ?h1"
    using Cons.prems by (simp add: deref_def assign_def)
  also have "\<dots> = Some (?h1[dst := (\<lambda>k. if k \<in> set keys then Some (hprop (?h1 ! src) k)
                                        else (?h1 ! dst) k)])"
    using Cons.prems by (intro Cons.IH) simp_all
  also have "\<dots> = Some (h[dst := (\<lambda>k. if k \<in> set (key # keys) then Some (hprop (h ! src) k)
                                      else (h ! dst) k)])"
    using Cons.prems by (auto simp: fun_eq_iff intro!: arg_cong [where f = "list_update h dst"])
  finally show ?case .
qed

lemma closed_pns:
  assumes "heap_closed h" and "state < length h"
    and "hprop (h ! state) ''privateNamespacedState'' = HRef c"
  shows "c < length h"
proof -
  from assms(3) have "(h ! state) ''privateNamespacedState'' = Some (HRef c)"
    by (simp add: hprop_def split: option.splits)
  with assms(1,2) show ?thesis by (auto simp: heap_closed_def)
qed

lemma closed_entry:
  assumes "heap_closed h" and "c < length h" and "lookup_member (h ! c) key = HRef r"
  shows "r < length h"
proof -
  from assms(3) have "(h ! c) key = Some (HRef r)"
    by (simp add: lookup_member_def split: option.splits if_splits)
  with assms(1,2) show ?thesis by (auto simp: heap_closed_def)
qed

lemma updateRoutefulState_heap_falsy:
  assumes "heap_closed h" and "state < length h" and "rinit < length h"
    and "\<not> truthy_id beforeId"
  shows "updateRoutefulState_heap tp keys rinit state beforeId afterId h =
           Some (length h + 2,
                 h @ [old_cache_props h state, Map.empty,
                      ((h ! state) ++ next_routeful_props tp rinit h state beforeId afterId)
                        (''privateNamespacedState'' \<mapsto> HRef (length h))])"
proof (cases "hprop (h ! state) ''privateNamespacedState''")
  case HUndefined
  with assms show ?thesis
    by (cases beforeId)
       (simp_all add: updateRoutefulState_heap_def deref_def alloc_def nth_append
          old_cache_props_def cached_value_def next_routeful_props_def hprop_def)
next
  case (HPrim x)
  with assms show ?thesis
    by (cases beforeId)
       (simp_all add: updateRoutefulState_heap_def deref_def alloc_def nth_append
          old_cache_props_def cached_value_def next_routeful_props_def hprop_def)
next
  case HBuiltin
  with assms show ?thesis
    by (cases beforeId)
       (simp_all add: updateRoutefulState_heap_def deref_def alloc_def nth_append
          old_cache_props_def cached_value_def next_routeful_props_def hprop_def)
next
  case (HRef c)
  with assms have c: "c < length h" by (simp add: closed_pns)
  show ?thesis
  proof (cases "lookup_member (h ! c) afterId")
    case HUndefined
    with HRef c assms show ?thesis
      by (cases beforeId)
         (simp_all add: updateRoutefulState_heap_def deref_def alloc_def nth_append
            old_cache_props_def cached_value_def next_routeful_props_def)
  next
    case (HPrim x)
    with HRef c assms show ?thesis
      by (cases beforeId)
         (simp_all add: updateRoutefulState_heap_def deref_def alloc_def nth_append
            old_cache_props_def cached_value_def next_routeful_props_def)
  next
    case HBuiltin
    with HRef c assms show ?thesis
      by (cases beforeId)
         (simp_all add: updateRoutefulState_heap_def deref_def alloc_def nth_append
            old_cache_props_def cached_value_def next_routeful_props_def)
  next
    case r: (HRef r)
    with assms c have "r < length h" by (simp add: closed_entry)
    with r HRef c assms show ?thesis
      by (cases beforeId)
         (simp_all add: updateRoutefulState_heap_def deref_def alloc_def nth_append
            old_cache_props_def cached_value_def next_routeful_props_def)
  qed
qed

lemma updateRoutefulState_heap_truthy:
  assumes "heap_closed h" and "state < length h" and "rinit < length h"
    and "b \<noteq> []"
  shows "updateRoutefulState_heap tp keys rinit state (Some b) afterId h =
           Some (length h + 4,
                 h @ [old_cache_props h state,
                      snapshot_props keys (h ! state),
                      (old_cache_props h state)(b \<mapsto> HRef (length h + 1)),
                      Map.empty,
                      ((h ! state) ++ next_routeful_props tp rinit h state (Some b) afterId)
                        (''privateNamespacedState'' \<mapsto> HRef (length h + 2))])"
proof -
  let ?h2 = "h @ [old_cache_props h state, Map.empty]"
  have ck: "copy_keys state (Suc (length h)) keys (h @ [c0, Map.empty]) =
            Some (h @ [c0, snapshot_props keys (h ! state)])" for c0
  proof -
    have "copy_keys state (Suc (length h)) keys (h @ [c0, Map.empty]) =
          Some ((h @ [c0, Map.empty])[Suc (length h) :=
             (\<lambda>k. if k \<in> set keys then Some (hprop ((h @ [c0, Map.empty]) ! state) k)
                  else ((h @ [c0, Map.empty]) ! Suc (length h)) k)])"
      using assms(2) by (intro copy_keys_Some) simp_all
    also have "(h @ [c0, Map.empty]) ! state = h ! state"
      using assms(2) by (simp add: nth_append)
    also have "(h @ [c0, Map.empty]) ! Suc (length h) = Map.empty"
      by (simp add: nth_append)
    finally show ?thesis
      by (simp add: snapshot_props_def list_update_append)
  qed
  show ?thesis
  proof (cases "hprop (h ! state) ''privateNamespacedState''")
    case HUndefined
    with assms show ?thesis
      by (simp add: updateRoutefulState_heap_def deref_def alloc_def nth_append ck
            old_cache_props_def cached_value_def next_routeful_props_def hprop_def)
  next
    case (HPrim x)
    with assms show ?thesis
      by (simp add: updateRoutefulState_heap_def deref_def alloc_def nth_append ck
            old_cache_props_def cached_value_def next_routeful_props_def hprop_def)
  next
    case HBuiltin
    with assms show ?thesis
      by (simp add: updateRoutefulState_heap_def deref_def alloc_def nth_append ck
            old_cache_props_def cached_value_def next_routeful_props_def hprop_def)
  next
    case (HRef c)
    with assms have c: "c < length h" by (simp add: closed_pns)
    show ?thesis
    proof (cases "lookup_member (h ! c) afterId")
      case HUndefined
      with HRef c assms show ?thesis
        by (simp add: updateRoutefulState_heap_def deref_def alloc_def nth_append ck
              old_cache_props_def cached_value_def next_routeful_props_def)
    next
      case (HPrim x)
      with HRef c assms show ?thesis
        by (simp add: updateRoutefulState_heap_def deref_def alloc_def nth_append ck
              old_cache_props_def cached_value_def next_routeful_props_def)
    next
      case HBuiltin
      with HRef c assms show ?thesis
        by (simp add: updateRoutefulState_heap_def deref_def alloc_def nth_append ck
              old_cache_props_def cached_value_def next_routeful_props_def)
    next
      case r: (HRef r)
      with assms c have "r < length h" by (simp add: closed_entry)
      with r HRef c assms show ?thesis
        by (simp add: updateRoutefulState_heap_def deref_def alloc_def nth_append ck
              old_cache_props_def cached_value_def next_routeful_props_def)
    qed
  qed
qed

lemma abs_obj_add: "abs_obj (m ++ n) = abs_obj m ++ abs_obj n"
  by (auto simp: abs_obj_def map_add_def fun_eq_iff split: option.splits)

lemma abs_obj_private: "abs_obj (m(''privateNamespacedState'' \<mapsto> v)) = abs_obj m"
  by (auto simp: abs_obj_def fun_eq_iff)

lemma abs_obj_empty: "abs_obj Map.empty = Map.empty"
  by (auto simp: abs_obj_def fun_eq_iff)

lemma cache_of_abs_state: "cache_of (abs_state h state) = abs_cache h (old_cache_props h state)"
  by (auto simp: cache_of_def abs_state_def old_cache_props_def abs_cache_def fun_eq_iff
           split: hval.splits)

lemma old_cache_props_closed:
  assumes "heap_closed h" and "state < length h"
    and "old_cache_props h state key = Some (HRef r)"
  shows "r < length h"
proof (cases "hprop (h ! state) ''privateNamespacedState''")
  case (HRef c)
  with assms(1,2) have "c < length h" by (simp add: closed_pns)
  moreover from HRef assms(3) have "(h ! c) key = Some (HRef r)"
    by (simp add: old_cache_props_def)
  ultimately show ?thesis using assms(1) by (auto simp: heap_closed_def)
qed (use assms(3) in \<open>simp_all add: old_cache_props_def\<close>)

lemma abs_cache_append:
  assumes "heap_closed h" and "state < length h"
  shows "abs_cache (h @ xs) (old_cache_props h state) = abs_cache h (old_cache_props h state)"
proof (rule ext)
  fix key
  show "abs_cache (h @ xs) (old_cache_props h state) key =
        abs_cache h (old_cache_props h state) key"
  proof (cases "old_cache_props h state key")
    case None
    then show ?thesis by (simp add: abs_cache_def)
  next
    case (Some v)
    show ?thesis
    proof (cases v)
      case (HRef r)
      with Some assms have "r < length h" by (simp add: old_cache_props_closed)
      with Some HRef show ?thesis by (simp add: abs_cache_def nth_append)
    qed (use Some in \<open>simp_all add: abs_cache_def\<close>)
  qed
qed

lemma snapshot_abs:
  assumes "''privateNamespacedState'' \<notin> set keys"
  shows "routefulStateToCache keys (abs_state h state) =
         abs_obj (snapshot_props keys (h ! state))"
  using assms
  by (auto simp: fun_eq_iff routefulStateToCache_apply abs_state_def abs_obj_def
        snapshot_props_def get_prop_def hprop_def split: option.splits)

lemma obj_of_abs_literal:
  assumes "''privateNamespacedState'' \<notin> set keys" and "dom ob = set keys"
  shows "obj_of (abs_literal keys ob) = abs_obj ob"
proof (rule ext)
  fix k
  have "map_of (map (\<lambda>k. (k, abs_val (hprop ob k))) keys) k =
        (if k \<in> set keys then Some (abs_val (hprop ob k)) else None)"
    by (induction keys) auto
  with assms show "obj_of (abs_literal keys ob) k = abs_obj ob k"
    by (auto simp: obj_of_def abs_literal_def abs_obj_def hprop_def domIff
             split: option.splits)
qed

lemma object_keys_abs_literal: "object_keys (abs_literal keys ob) = keys"
  by (simp add: object_keys_def abs_literal_def comp_def)

lemma next_routeful_abs:
  assumes "well_typed keys rinit state afterId h"
  shows "abs_obj (next_routeful_props tp rinit h state beforeId afterId) =
           (case lookup_entry (abs_state h state) afterId of
              Found cached \<Rightarrow> cached
            | Builtin \<Rightarrow> Map.empty
            | Missing \<Rightarrow> if truthy_id beforeId then obj_of (abs_literal keys (h ! rinit))
                         else Map.empty)"
proof -
  from assms have lit: "obj_of (abs_literal keys (h ! rinit)) = abs_obj (h ! rinit)"
    by (simp add: well_typed_def obj_of_abs_literal)
  show ?thesis
  proof (cases "hprop (h ! state) ''privateNamespacedState''")
    case (HRef c)
    then have o: "old_cache_props h state = h ! c"
      by (simp add: old_cache_props_def)
    have cv: "cached_value h state afterId = lookup_member (h ! c) afterId"
      using HRef by (simp add: cached_value_def)
    have le: "lookup_entry (abs_state h state) afterId =
          (case abs_cache h (h ! c) afterId of
             Some cached \<Rightarrow> Found cached
           | None \<Rightarrow> if afterId \<in> set object_prototype_members then Builtin else Missing)"
      using HRef by (simp add: lookup_entry_def abs_state_def)
    show ?thesis
    proof (cases "(h ! c) afterId")
      case None
      then show ?thesis
        by (simp add: le cv lit next_routeful_props_def lookup_member_def abs_cache_def
              abs_obj_empty)
    next
      case (Some v)
      with assms o consider r where "v = HRef r"
        | "v = HUndefined" "afterId \<notin> set object_prototype_members"
        by (auto simp: well_typed_def)
      then show ?thesis
      proof cases
        case 1
        with Some show ?thesis
          by (simp add: le cv next_routeful_props_def lookup_member_def abs_cache_def)
      next
        case 2
        with Some show ?thesis
          by (simp add: le cv lit next_routeful_props_def lookup_member_def abs_cache_def
                abs_obj_empty)
      qed
    qed
  qed (simp_all add: lit next_routeful_props_def cached_value_def lookup_entry_def
         abs_state_def abs_obj_empty)
qed

lemma private_update:
  "privateNamespacedState (updateRoutefulState ri s b a) =
     Some (cache_of (updateRoutefulState ri s b a))"
  by (simp add: updateRoutefulState_def Let_def cache_of_def)

lemma FullState_eqI:
  fixes s t :: "'w FullState"
  assumes "props s = props t" and "privateNamespacedState s = privateNamespacedState t"
  shows "s = t"
  using assms by (cases s, cases t) simp

section \<open>The claims\<close>

text \<open>
  C9. A \<open>navigated\<close> action whose namespace ids before and after are equal, and for
  which either the route ids derived from the two routes are equal or no
  \<open>onRouteIdChanged\<close> callback was supplied, leaves the state as it is: the reducer
  returns its input state, with the routeful properties, the other properties and the
  cache all unchanged.
\<close>

theorem reducers_same_namespace_unchanged:
  assumes "beforeNamespaceId action = Some (afterNamespaceId action)"
    and "onRouteIdChanged = None \<or>
         (case before action of
            Some b \<Rightarrow> Some (getRouteId (routeKind b) (params b))
          | None \<Rightarrow> None) =
         Some (getRouteId (routeKind (after action)) (params (after action)))"
  shows "reducers routefulInitialState getRouteId onRouteIdChanged state action = state"
  using assms by (auto simp: reducers_def Let_def split: option.splits)

theorem reducers_same_namespace_unchanged_witness:
  "reducers ex_routeful (\<lambda>k p. k @ ''/'' @ p) (Some (\<lambda>s r. s\<lparr>props := Map.empty\<rparr>))
     ex_state ex_action = ex_state"
  using reducers_same_namespace_unchanged
    [of ex_action "Some (\<lambda>s r. s\<lparr>props := Map.empty\<rparr>)" "\<lambda>k p. k @ ''/'' @ p"
        ex_routeful ex_state]
  by (simp add: ex_action_def)

text \<open>
  C3. On the very first navigation (the previous namespace id is \<open>null\<close>), when the
  cache has no entry for the next namespace id, the top-level properties of the returned
  state are those of the input state; in particular its routeful properties keep their
  bootstrapped values and are not reset to the initial ones.
\<close>

theorem first_navigation_keeps_routeful:
  assumes "cache_of state nextId = None"
  shows "props (updateRoutefulState routefulInitialState state None nextId) = props state
       \<and> routeful_of routefulInitialState
           (updateRoutefulState routefulInitialState state None nextId) =
         routeful_of routefulInitialState state"
proof -
  have p: "props (updateRoutefulState routefulInitialState state None nextId) = props state"
    by (simp add: props_update_None [OF assms])
  have "routefulStateToCache (object_keys routefulInitialState)
          (updateRoutefulState routefulInitialState state None nextId) =
        routefulStateToCache (object_keys routefulInitialState) state"
    by (rule routefulStateToCache_cong) (simp add: p)
  with p show ?thesis
    by (simp add: routeful_of_def)
qed

theorem first_navigation_keeps_routeful_witness:
  "cache_of ex_state ''B'' = None
   \<and> props (updateRoutefulState ex_routeful ex_state None ''B'') = props ex_state
   \<and> routeful_of ex_routeful (updateRoutefulState ex_routeful ex_state None ''B'') =
     routeful_of ex_routeful ex_state"
proof -
  have h: "cache_of ex_state ''B'' = None"
    by (simp add: cache_of_def ex_state_def)
  show ?thesis
    using h first_navigation_keeps_routeful [OF h, of ex_routeful] by simp
qed

text \<open>
  C5. The cache never loses an entry: every namespace id that has an entry in the cache
  of the input state has one in the cache of the state returned by
  \<open>updateRoutefulState\<close>, and in the state returned by the \<open>navigated\<close> reducer
  (where an \<open>onRouteIdChanged\<close> callback, if given, is one that drops no entry itself).
\<close>

theorem cache_never_evicts:
  assumes "\<And>callback s r. onRouteIdChanged = Some callback \<Longrightarrow>
             dom (cache_of s) \<subseteq> dom (cache_of (callback s r))"
  shows "dom (cache_of state) \<subseteq>
           dom (cache_of (updateRoutefulState routefulInitialState state prevId nextId))
       \<and> dom (cache_of state) \<subseteq>
           dom (cache_of (reducers routefulInitialState getRouteId onRouteIdChanged state action))"
proof -
  have u: "dom (cache_of s) \<subseteq> dom (cache_of (updateRoutefulState routefulInitialState s b a))"
    for s :: "'a FullState" and b a
    by (auto simp: updateRoutefulState_def Let_def cache_of_def split: option.splits)
  define mid where "mid =
    (if beforeNamespaceId action \<noteq> Some (afterNamespaceId action)
     then updateRoutefulState routefulInitialState state
            (beforeNamespaceId action) (afterNamespaceId action)
     else state)"
  have m: "dom (cache_of state) \<subseteq> dom (cache_of mid)"
    using u by (simp add: mid_def)
  have "dom (cache_of state) \<subseteq>
          dom (cache_of (reducers routefulInitialState getRouteId onRouteIdChanged state action))"
  proof (cases onRouteIdChanged)
    case None
    with m show ?thesis by (simp add: reducers_def Let_def mid_def)
  next
    case (Some callback)
    have "dom (cache_of mid) \<subseteq> dom (cache_of (callback mid (after action)))"
      using assms [OF Some] .
    with m have "dom (cache_of state) \<subseteq> dom (cache_of (callback mid (after action)))"
      by (rule subset_trans)
    with m Some show ?thesis by (simp add: reducers_def Let_def mid_def)
  qed
  with u show ?thesis by simp
qed

theorem cache_never_evicts_witness:
  "dom (cache_of (ex_state\<lparr>privateNamespacedState := Some [''A'' \<mapsto> obj_of ex_routeful]\<rparr>)) \<subseteq>
     dom (cache_of (updateRoutefulState ex_routeful
       (ex_state\<lparr>privateNamespacedState := Some [''A'' \<mapsto> obj_of ex_routeful]\<rparr>) (Some ''B'') ''A''))
   \<and> dom (cache_of (ex_state\<lparr>privateNamespacedState := Some [''A'' \<mapsto> obj_of ex_routeful]\<rparr>)) \<subseteq>
     dom (cache_of (reducers ex_routeful (\<lambda>k p. k @ ''/'' @ p) (Some (\<lambda>s r. s\<lparr>props := Map.empty\<rparr>))
       (ex_state\<lparr>privateNamespacedState := Some [''A'' \<mapsto> obj_of ex_routeful]\<rparr>) ex_action))"
  by (rule cache_never_evicts) (auto simp: cache_of_def)

text \<open>
  C10, as the code has it. The swap leaves alone every top-level property that is not a
  routeful key, provided the snapshot cached for the next namespace id (if there is one)
  holds routeful keys only. That is so in every state built from the initial state by
  the reducer and by clients that do not touch the cache; a snapshot with a foreign
  property would be spread over the state with that property.
\<close>

theorem nonrouteful_untouched:
  assumes "\<And>snap. cache_of state nextId = Some snap \<Longrightarrow>
             dom snap \<subseteq> set (object_keys routefulInitialState)"
    and "k \<notin> set (object_keys routefulInitialState)"
  shows "props (updateRoutefulState routefulInitialState state prevId nextId) k = props state k"
proof (cases "cache_of state nextId")
  case None
  have "k \<notin> dom (obj_of routefulInitialState)"
    using assms(2) by (simp add: dom_obj_of)
  then show ?thesis
    by (simp add: props_update_None [OF None] map_add_def domIff split: option.splits)
next
  case (Some snap)
  with assms have "snap k = None" by blast
  then show ?thesis
    by (simp add: props_update_Some [OF Some] map_add_def)
qed

theorem nonrouteful_untouched_witness:
  "props (updateRoutefulState ex_routeful
            (ex_state\<lparr>privateNamespacedState := Some [''B'' \<mapsto> [''count'' \<mapsto> Val 1]]\<rparr>)
            (Some ''A'') ''B'') ''title'' =
   props (ex_state\<lparr>privateNamespacedState := Some [''B'' \<mapsto> [''count'' \<mapsto> Val 1]]\<rparr>) ''title''"
  by (rule nonrouteful_untouched) (auto simp: cache_of_def object_keys_def ex_routeful_def)

text \<open>
  C10 as stated, for every input state, fails: with a cached snapshot for \<open>B\<close> that carries
  the non-routeful property \<open>title\<close>, entering \<open>B\<close> overwrites \<open>title\<close>.
\<close>

theorem nonrouteful_untouched_counterexample:
  "''title'' \<notin> set (object_keys ex_routeful)
   \<and> props (updateRoutefulState ex_routeful ex_state_foreign None ''B'') ''title'' \<noteq>
     props ex_state_foreign ''title''"
  by (simp add: object_keys_def ex_routeful_def ex_state_foreign_def props_update
        lookup_entry_def)

text \<open>
  C2, as the code has it. When the previous namespace id is neither \<open>null\<close> nor the empty
  string, the cache of the returned state is the cache of the input state with the entry
  for the previous id set to the live routeful properties of the input state (each
  routeful key with the value the state holds for it); every other entry is the same.
\<close>

theorem previous_routeful_cached:
  assumes "prevId \<noteq> []"
  shows "privateNamespacedState (updateRoutefulState routefulInitialState state (Some prevId) nextId) =
           Some ((cache_of state)(prevId \<mapsto> routeful_of routefulInitialState state))
       \<and> routeful_of routefulInitialState state =
           (\<lambda>k. if k \<in> set (object_keys routefulInitialState)
                then Some (get_prop (props state) k) else None)"
  using assms
  by (auto simp: updateRoutefulState_def Let_def routeful_of_def routefulStateToCache_apply)

theorem previous_routeful_cached_witness:
  "privateNamespacedState (updateRoutefulState ex_routeful ex_state (Some ''A'') ''B'') =
     Some ((cache_of ex_state)(''A'' \<mapsto> routeful_of ex_routeful ex_state))
   \<and> routeful_of ex_routeful ex_state =
       (\<lambda>k. if k \<in> set (object_keys ex_routeful)
            then Some (get_prop (props ex_state) k) else None)"
  using previous_routeful_cached [of "''A''" ex_routeful ex_state "''B''"] by simp

text \<open>
  C2 as stated, for every previous id other than \<open>null\<close>, fails at the empty string: it
  is falsy, so nothing is stored under it.
\<close>

theorem previous_routeful_cached_counterexample:
  "Some [] \<noteq> (None :: string option)
   \<and> cache_of (updateRoutefulState ex_routeful ex_state (Some []) ''B'') [] \<noteq>
     Some (routeful_of ex_routeful ex_state)"
proof -
  have "cache_of (updateRoutefulState ex_routeful ex_state (Some []) ''B'') = cache_of ex_state"
    by (simp add: cache_of_update)
  moreover have "cache_of ex_state [] = None"
    by (simp add: cache_of_def ex_state_def)
  ultimately show ?thesis by simp
qed




text \<open>
  C4, as the code has it. Let \<open>B\<close> be a namespace id other than the empty string. Go
  from \<open>A\<close> to \<open>B\<close>, let the client change the top-level properties in any way, go back
  to \<open>A\<close> and again to \<open>B\<close>: the live routeful properties are then the changed ones that
  were live when \<open>B\<close> was left.
\<close>

theorem revisit_restores_mutation:
  assumes "B \<noteq> []"
  shows "routeful_of ri
           (updateRoutefulState ri
              (updateRoutefulState ri
                 ((updateRoutefulState ri s (Some A) B)\<lparr>props := p\<rparr>) (Some B) A)
              (Some A) B) =
         routeful_of ri ((updateRoutefulState ri s (Some A) B)\<lparr>props := p\<rparr>)"
proof -
  define s2 where "s2 = (updateRoutefulState ri s (Some A) B)\<lparr>props := p\<rparr>"
  define s3 where "s3 = updateRoutefulState ri s2 (Some B) A"
  have "cache_of s3 B = Some (routeful_of ri s2)"
    using assms by (simp add: s3_def cache_of_update)
  then have "props (updateRoutefulState ri s3 (Some A) B) = props s3 ++ routeful_of ri s2"
    by (rule props_update_Some)
  moreover have "dom (routeful_of ri s2) = set (object_keys ri)"
    by (simp add: routeful_of_def dom_routefulStateToCache)
  ultimately have "routefulStateToCache (object_keys ri) (updateRoutefulState ri s3 (Some A) B) =
                   routeful_of ri s2"
    by (intro routeful_restore)
  then show ?thesis
    by (simp add: routeful_of_def s2_def s3_def)
qed

theorem revisit_restores_mutation_witness:
  "routeful_of ex_routeful
     (updateRoutefulState ex_routeful
        (updateRoutefulState ex_routeful
           ((updateRoutefulState ex_routeful ex_state (Some ''A'') ''B'')
              \<lparr>props := [''count'' \<mapsto> Val 9]\<rparr>) (Some ''B'') ''A'')
        (Some ''A'') ''B'') =
   routeful_of ex_routeful
     ((updateRoutefulState ex_routeful ex_state (Some ''A'') ''B'')\<lparr>props := [''count'' \<mapsto> Val 9]\<rparr>)"
  by (rule revisit_restores_mutation) simp

text \<open>
  C4 as stated, for any two distinct namespace ids, fails when \<open>B\<close> is the empty string:
  leaving \<open>B\<close> stores nothing, and coming back resets \<open>count\<close> to the initial \<open>0\<close>
  instead of the \<open>9\<close> that was live.
\<close>

theorem revisit_restores_mutation_counterexample:
  "''A'' \<noteq> []
   \<and> routeful_of ex_routeful
       (updateRoutefulState ex_routeful
          (updateRoutefulState ex_routeful
             ((updateRoutefulState ex_routeful ex_state (Some ''A'') [])
                \<lparr>props := [''count'' \<mapsto> Val 9]\<rparr>) (Some []) ''A'')
          (Some ''A'') []) \<noteq>
     routeful_of ex_routeful
       ((updateRoutefulState ex_routeful ex_state (Some ''A'') [])\<lparr>props := [''count'' \<mapsto> Val 9]\<rparr>)"
proof -
  have "routeful_of ex_routeful
       (updateRoutefulState ex_routeful
          (updateRoutefulState ex_routeful
             ((updateRoutefulState ex_routeful ex_state (Some ''A'') [])
                \<lparr>props := [''count'' \<mapsto> Val 9]\<rparr>) (Some []) ''A'')
          (Some ''A'') []) ''count'' = Some (Val 0)"
    by (simp add: routeful_of_def routefulStateToCache_def updateRoutefulState_def Let_def
        cache_of_def lookup_entry_def object_prototype_members_def object_keys_def
        ex_routeful_def ex_state_def obj_of_def get_prop_def map_add_def)
  moreover have "routeful_of ex_routeful
       ((updateRoutefulState ex_routeful ex_state (Some ''A'') [])\<lparr>props := [''count'' \<mapsto> Val 9]\<rparr>)
       ''count'' = Some (Val 9)"
    by (simp add: routeful_of_def routefulStateToCache_def object_keys_def ex_routeful_def
        get_prop_def)
  ultimately show ?thesis
    by (metis js.inject option.inject zero_neq_numeral list.distinct(1))
qed

text \<open>
  C7. Called on a \<open>Route\<close> without the flag that keeps the hash,
  \<open>getFullPathFromRouteOrNav\<close> returns the resolved path alone when \<open>queryParams\<close> is
  empty, and the resolved path, \<open>?\<close> and the parameters as \<open>k=v\<close> joined by \<open>&\<close>, in
  order, when it is not.
\<close>

theorem full_path_of_route:
  assumes "getResolvedPath w (pathname r) = Inr path"
    and "shouldPreserveHash \<noteq> Some True"
  shows "getFullPathFromRouteOrNav w (IsRoute r) shouldPreserveHash =
           Inr (if queryParams r = [] then path
                else path @ ''?'' @
                  join_amp (map (\<lambda>(k, v). form_encode w k @ ''='' @ form_encode w v)
                              (queryParams r)))"
  using assms
  by (simp add: getFullPathFromRouteOrNav_def Let_def searchParamsToString_def)

theorem full_path_of_route_witness:
  "getFullPathFromRouteOrNav ex_window (IsRoute ex_route) None = Inr ''/experiment/1''
   \<and> getFullPathFromRouteOrNav ex_window (IsRoute ex_route_query) None =
       Inr ''/experiment/1?a=1&b=2''"
proof -
  have a: "getResolvedPath ex_window (pathname ex_route) = Inr ''/experiment/1''"
    by (simp add: getResolvedPath_def ex_window_def ex_route_def)
  have b: "getResolvedPath ex_window (pathname ex_route_query) = Inr ''/experiment/1''"
    by (simp add: getResolvedPath_def ex_window_def ex_route_query_def)
  have n: "(None :: bool option) \<noteq> Some True" by simp
  have "getFullPathFromRouteOrNav ex_window (IsRoute ex_route) None = Inr ''/experiment/1''"
    using full_path_of_route [OF a n] by (simp add: ex_route_def)
  moreover have "getFullPathFromRouteOrNav ex_window (IsRoute ex_route_query) None =
       Inr ''/experiment/1?a=1&b=2''"
    using full_path_of_route [OF b n] by (simp add: ex_route_query_def ex_window_def)
  ultimately show ?thesis by simp
qed

text \<open>
  C6, as the code has it. Take chained navigations that enter only namespace ids which
  are non-empty and not names of \<open>Object.prototype\<close> members. In every state reached
  by one or more of them, the live routeful properties are the values of exactly one
  namespace, the one the application is in, and of no other; the values of every other
  namespace are dormant, being the snapshot that the cache holds for it (no snapshot
  where it was never entered).
\<close>

theorem one_namespace_live:
  assumes "spec_tracks (\<lambda>n. n \<noteq> [] \<and> n \<notin> set object_prototype_members)
             ri ni getRouteId (Some c) views state"
  shows "views c = Some (routeful_of ri state)
       \<and> (\<forall>m. m \<noteq> c \<longrightarrow> cache_of state m = views m)"
  using spec_tracks_invariant [OF assms] by simp

theorem one_namespace_live_witness:
  "ex_run_views ''A'' ''B'' ''B'' = Some (routeful_of ex_routeful (ex_run_state ''A'' ''B''))
   \<and> cache_of (ex_run_state ''A'' ''B'') ''A'' = ex_run_views ''A'' ''B'' ''A''"
proof -
  have "spec_tracks (\<lambda>n. n \<noteq> [] \<and> n \<notin> set object_prototype_members)
          ex_routeful ex_nonrouteful ex_getRouteId
          (Some ''B'') (ex_run_views ''A'' ''B'') (ex_run_state ''A'' ''B'')"
    by (rule ex_run_tracks) (simp_all add: object_prototype_members_def)
  from one_namespace_live [OF this] show ?thesis by simp
qed

text \<open>
  C6 as stated, for every state reachable by navigations, fails in three ways. When a
  namespace has the empty string as its id: after entering it first, setting
  \<open>count = 5\<close> and moving on to \<open>B\<close>, its values are not in the cache, and they are live
  in \<open>B\<close>, which should have started from \<open>count = 0\<close>. When a namespace id names a
  member of \<open>Object.prototype\<close>: after entering \<open>A\<close>, setting \<open>count = 5\<close> and moving on to
  \<open>constructor\<close>, the values of \<open>A\<close> stay live there. And before the first navigation the
  application is in no namespace at all.
\<close>

theorem one_namespace_live_counterexample:
  "spec_tracks (\<lambda>n. True) ex_routeful ex_nonrouteful ex_getRouteId
     (Some ''B'') (ex_run_views [] ''B'') (ex_run_state [] ''B'')
   \<and> cache_of (ex_run_state [] ''B'') [] \<noteq> ex_run_views [] ''B'' []
   \<and> ex_run_views [] ''B'' ''B'' \<noteq> Some (routeful_of ex_routeful (ex_run_state [] ''B''))
   \<and> spec_tracks (\<lambda>n. True) ex_routeful ex_nonrouteful ex_getRouteId
       (Some ''constructor'') (ex_run_views ''A'' ''constructor'')
       (ex_run_state ''A'' ''constructor'')
   \<and> ex_run_views ''A'' ''constructor'' ''constructor'' \<noteq>
       Some (routeful_of ex_routeful (ex_run_state ''A'' ''constructor''))
   \<and> spec_tracks (\<lambda>n. True) ex_routeful ex_nonrouteful ex_getRouteId
       None Map.empty (initialState ex_routeful ex_nonrouteful)"
proof -
  have t: "spec_tracks (\<lambda>n. True) ex_routeful ex_nonrouteful ex_getRouteId
     (Some ''B'') (ex_run_views [] ''B'') (ex_run_state [] ''B'')"
    by (rule ex_run_tracks) simp_all
  have t': "spec_tracks (\<lambda>n. True) ex_routeful ex_nonrouteful ex_getRouteId
     (Some ''constructor'') (ex_run_views ''A'' ''constructor'')
     (ex_run_state ''A'' ''constructor'')"
    by (rule ex_run_tracks) simp_all
  have t0: "spec_tracks (\<lambda>n. True) ex_routeful ex_nonrouteful ex_getRouteId
       None Map.empty (initialState ex_routeful ex_nonrouteful)"
    by (rule spec_initial)
  have c: "cache_of (ex_run_state [] ''B'') [] = None"
    by (simp add: ex_run_state_def reducers_None ex_enter_def cache_of_update)
       (simp add: cache_of_def initialState_def)
  have "routeful_of ex_routeful (ex_run_state [] ''B'') ''count'' = Some (Val 5)"
    by (rule ex_run_live) simp
  then have l: "routeful_of ex_routeful (ex_run_state [] ''B'') \<noteq> [''count'' \<mapsto> Val 0]"
    by (metis fun_upd_same js.inject option.inject zero_neq_numeral)
  have "routeful_of ex_routeful (ex_run_state ''A'' ''constructor'') ''count'' = Some (Val 5)"
    by (rule ex_run_live) (simp add: object_prototype_members_def)
  then have l': "routeful_of ex_routeful (ex_run_state ''A'' ''constructor'') \<noteq>
                 [''count'' \<mapsto> Val 0]"
    by (metis fun_upd_same js.inject option.inject zero_neq_numeral)
  from t t' t0 c l l' show ?thesis by (simp add: ex_run_views_def)
qed

text \<open>
  C8. On every heap and for every pair of namespace ids, \<open>updateRoutefulState\<close> returns
  (it throws nothing); every object that existed before the call, the input state, its
  cache and the snapshots among them, is afterwards what it was, the returned state being
  a new object; and what is returned is given by the arguments alone: for a well-typed
  state it is the value that the function on values computes from the input state.
\<close>

theorem updateRoutefulState_total_and_pure:
  assumes "heap_closed h" and "state < length h" and "routefulInitialState < length h"
  shows "\<exists>r h'. updateRoutefulState_heap tp keys routefulInitialState state prevId nextId h =
                   Some (r, h')
          \<and> take (length h) h' = h
          \<and> length h \<le> r \<and> r < length h'
          \<and> (well_typed keys routefulInitialState state nextId h \<longrightarrow>
               abs_state h' r =
               updateRoutefulState (abs_literal keys (h ! routefulInitialState))
                 (abs_state h state) prevId nextId)"
proof (cases "truthy_id prevId")
  case False
  let ?n = "length h"
  let ?nr = "next_routeful_props tp routefulInitialState h state prevId nextId"
  let ?R = "((h ! state) ++ ?nr)(''privateNamespacedState'' \<mapsto> HRef ?n)"
  let ?h' = "h @ [old_cache_props h state, Map.empty, ?R]"
  let ?lit = "abs_literal keys (h ! routefulInitialState)"
  have run: "updateRoutefulState_heap tp keys routefulInitialState state prevId nextId h =
             Some (?n + 2, ?h')"
    using assms False by (rule updateRoutefulState_heap_falsy)
  have "abs_state ?h' (?n + 2) = updateRoutefulState ?lit (abs_state h state) prevId nextId"
    if wt: "well_typed keys routefulInitialState state nextId h"
  proof (rule FullState_eqI)
    have "props (abs_state ?h' (?n + 2)) = abs_obj (h ! state) ++ abs_obj ?nr"
      by (simp add: abs_state_def nth_append abs_obj_private abs_obj_add)
    also have "\<dots> = props (updateRoutefulState ?lit (abs_state h state) prevId nextId)"
      by (simp add: props_update next_routeful_abs [OF wt])
         (simp add: abs_state_def)
    finally show "props (abs_state ?h' (?n + 2)) =
                  props (updateRoutefulState ?lit (abs_state h state) prevId nextId)" .
    have "privateNamespacedState (abs_state ?h' (?n + 2)) =
          Some (abs_cache ?h' (old_cache_props h state))"
      by (simp add: abs_state_def nth_append hprop_def)
    also have "\<dots> = Some (abs_cache h (old_cache_props h state))"
      using assms(1,2) by (simp add: abs_cache_append)
    also have "\<dots> = privateNamespacedState
                       (updateRoutefulState ?lit (abs_state h state) prevId nextId)"
      using False by (simp add: private_update cache_of_update cache_of_abs_state)
    finally show "privateNamespacedState (abs_state ?h' (?n + 2)) =
                  privateNamespacedState
                    (updateRoutefulState ?lit (abs_state h state) prevId nextId)" .
  qed
  with run show ?thesis by simp
next
  case True
  then obtain b where b: "prevId = Some b" "b \<noteq> []"
    by (cases prevId) auto
  let ?n = "length h"
  let ?nr = "next_routeful_props tp routefulInitialState h state prevId nextId"
  let ?R = "((h ! state) ++ ?nr)(''privateNamespacedState'' \<mapsto> HRef (?n + 2))"
  let ?c = "(old_cache_props h state)(b \<mapsto> HRef (?n + 1))"
  let ?h' = "h @ [old_cache_props h state, snapshot_props keys (h ! state), ?c, Map.empty, ?R]"
  let ?lit = "abs_literal keys (h ! routefulInitialState)"
  have run: "updateRoutefulState_heap tp keys routefulInitialState state prevId nextId h =
             Some (?n + 4, ?h')"
    unfolding b using assms b(2) by (rule updateRoutefulState_heap_truthy)
  have "abs_state ?h' (?n + 4) = updateRoutefulState ?lit (abs_state h state) prevId nextId"
    if wt: "well_typed keys routefulInitialState state nextId h"
  proof (rule FullState_eqI)
    have "props (abs_state ?h' (?n + 4)) = abs_obj (h ! state) ++ abs_obj ?nr"
      by (simp add: abs_state_def nth_append abs_obj_private abs_obj_add)
    also have "\<dots> = props (updateRoutefulState ?lit (abs_state h state) prevId nextId)"
      by (simp add: props_update next_routeful_abs [OF wt])
         (simp add: abs_state_def)
    finally show "props (abs_state ?h' (?n + 4)) =
                  props (updateRoutefulState ?lit (abs_state h state) prevId nextId)" .
    from wt have pk: "''privateNamespacedState'' \<notin> set keys"
      by (simp add: well_typed_def)
    have "privateNamespacedState (abs_state ?h' (?n + 4)) = Some (abs_cache ?h' ?c)"
      by (simp add: abs_state_def nth_append hprop_def)
    also have "abs_cache ?h' ?c =
               (abs_cache ?h' (old_cache_props h state))
                 (b \<mapsto> abs_obj (snapshot_props keys (h ! state)))"
      by (auto simp: abs_cache_def fun_eq_iff nth_append)
    also have "abs_cache ?h' (old_cache_props h state) = abs_cache h (old_cache_props h state)"
      using assms(1,2) by (simp add: abs_cache_append)
    also have "Some ((abs_cache h (old_cache_props h state))
                       (b \<mapsto> abs_obj (snapshot_props keys (h ! state)))) =
               privateNamespacedState
                 (updateRoutefulState ?lit (abs_state h state) prevId nextId)"
      using b by (simp add: private_update cache_of_update cache_of_abs_state routeful_of_def
                    object_keys_abs_literal snapshot_abs [OF pk])
    finally show "privateNamespacedState (abs_state ?h' (?n + 4)) =
                  privateNamespacedState
                    (updateRoutefulState ?lit (abs_state h state) prevId nextId)" .
  qed
  with run show ?thesis by simp
qed

theorem updateRoutefulState_total_and_pure_witness:
  "\<exists>r h'. updateRoutefulState_heap (\<lambda>n. n \<noteq> 0) [''count''] 0 1 (Some ''A'') ''B'' ex_heap =
             Some (r, h')
     \<and> take (length ex_heap) h' = ex_heap
     \<and> length ex_heap \<le> r \<and> r < length h'
     \<and> abs_state h' r =
         updateRoutefulState (abs_literal [''count''] (ex_heap ! 0)) (abs_state ex_heap 1)
           (Some ''A'') ''B''"
proof -
  have len: "length ex_heap = 4" by (simp add: ex_heap_def)
  have closed: "heap_closed ex_heap"
    unfolding heap_closed_def len
  proof (intro allI impI)
    fix a key r
    assume "a < 4" and e: "(ex_heap ! a) key = Some (HRef r)"
    then consider "a = 0" | "a = 1" | "a = 2" | "a = 3" by linarith
    then show "r < 4"
      using e by cases (auto simp: ex_heap_def split: if_splits)
  qed
  have wt: "well_typed [''count''] 0 1 ''B'' ex_heap"
    by (auto simp: well_typed_def cached_value_def old_cache_props_def hprop_def ex_heap_def)
  have "(1::nat) < length ex_heap" and "(0::nat) < length ex_heap"
    by (simp_all add: len)
  from updateRoutefulState_total_and_pure [OF closed this, of "\<lambda>n. n \<noteq> 0" "[''count'']" "Some ''A''" "''B''"]
  show ?thesis using wt by blast
qed

end
